theory Spec2Isabelle
  imports Main "HOL-Library.Sublist"
begin

section \<open>Text\<close>

text \<open>
  A JavaScript string is a sequence of UTF-16 code units; a code unit is modelled as a
  natural number and a string as a list of them. \<open>ascii\<close> reads a literal of the
  source, so that \<open>ascii ''leite''\<close> is the string \<open>'leite'\<close>.
\<close>

type_synonym jstring = "nat list"

definition ascii :: "string \<Rightarrow> jstring" where
  "ascii s = map of_char s"

subsection \<open>The library functions that normalizeTitle calls\<close>

text \<open>
  \<open>String.prototype.toLowerCase\<close> and \<open>String.prototype.normalize('NFD')\<close> belong
  to the language, not to the program. They are tabulated here for the code units below
  U+0100 (Basic Latin and Latin-1 Supplement, which hold every letter of Portuguese) and
  for the combining marks U+0300 to U+036F; on strings of these code units
  (\<open>latin_text\<close>) the two definitions below are the functions of the language. Other
  code units are left as they are, which for most of them is not what the language does:
  a theorem about \<open>normalizeTitle\<close> speaks of the program on \<open>latin_text\<close> titles,
  and beyond them only where it says so.
\<close>

definition latin_text :: "jstring \<Rightarrow> bool" where
  "latin_text s \<longleftrightarrow> list_all (\<lambda>c. c < 0x100 \<or> (0x300 \<le> c \<and> c \<le> 0x36F)) s"

definition lower_unit :: "nat \<Rightarrow> nat" where
  "lower_unit c =
     (if (0x41 \<le> c \<and> c \<le> 0x5A) \<or> (0xC0 \<le> c \<and> c \<le> 0xD6) \<or> (0xD8 \<le> c \<and> c \<le> 0xDE)
      then c + 0x20 else c)"

definition toLowerCase :: "jstring \<Rightarrow> jstring" where
  "toLowerCase s = map lower_unit s"

text \<open>The canonical decompositions of the Latin-1 letters: base letter, combining mark.\<close>

definition nfd_table :: "(nat \<times> nat \<times> nat) list" where
  "nfd_table =
    [(0xC0, 0x41, 0x300), (0xC1, 0x41, 0x301), (0xC2, 0x41, 0x302), (0xC3, 0x41, 0x303),
     (0xC4, 0x41, 0x308), (0xC5, 0x41, 0x30A), (0xC7, 0x43, 0x327),
     (0xC8, 0x45, 0x300), (0xC9, 0x45, 0x301), (0xCA, 0x45, 0x302), (0xCB, 0x45, 0x308),
     (0xCC, 0x49, 0x300), (0xCD, 0x49, 0x301), (0xCE, 0x49, 0x302), (0xCF, 0x49, 0x308),
     (0xD1, 0x4E, 0x303),
     (0xD2, 0x4F, 0x300), (0xD3, 0x4F, 0x301), (0xD4, 0x4F, 0x302), (0xD5, 0x4F, 0x303),
     (0xD6, 0x4F, 0x308),
     (0xD9, 0x55, 0x300), (0xDA, 0x55, 0x301), (0xDB, 0x55, 0x302), (0xDC, 0x55, 0x308),
     (0xDD, 0x59, 0x301),
     (0xE0, 0x61, 0x300), (0xE1, 0x61, 0x301), (0xE2, 0x61, 0x302), (0xE3, 0x61, 0x303),
     (0xE4, 0x61, 0x308), (0xE5, 0x61, 0x30A), (0xE7, 0x63, 0x327),
     (0xE8, 0x65, 0x300), (0xE9, 0x65, 0x301), (0xEA, 0x65, 0x302), (0xEB, 0x65, 0x308),
     (0xEC, 0x69, 0x300), (0xED, 0x69, 0x301), (0xEE, 0x69, 0x302), (0xEF, 0x69, 0x308),
     (0xF1, 0x6E, 0x303),
     (0xF2, 0x6F, 0x300), (0xF3, 0x6F, 0x301), (0xF4, 0x6F, 0x302), (0xF5, 0x6F, 0x303),
     (0xF6, 0x6F, 0x308),
     (0xF9, 0x75, 0x300), (0xFA, 0x75, 0x301), (0xFB, 0x75, 0x302), (0xFC, 0x75, 0x308),
     (0xFD, 0x79, 0x301), (0xFF, 0x79, 0x308)]"

text \<open>The four combining marks of the block that have a decomposition of their own.\<close>

definition mark_table :: "(nat \<times> jstring) list" where
  "mark_table = [(0x340, [0x300]), (0x341, [0x301]), (0x343, [0x313]), (0x344, [0x308, 0x301])]"

definition decompose :: "nat \<Rightarrow> jstring" where
  "decompose c =
     (case map_of nfd_table c of
        Some (b, m) \<Rightarrow> [b, m]
      | None \<Rightarrow> (case map_of mark_table c of Some ms \<Rightarrow> ms | None \<Rightarrow> [c]))"

text \<open>
  The canonical combining class of a code unit: zero for a starter, and for the combining
  marks U+0300 to U+036F the class of the Unicode character database, by ranges (first,
  last, class).
\<close>

definition ccc_table :: "(nat \<times> nat \<times> nat) list" where
  "ccc_table =
    [(0x300, 0x314, 230), (0x315, 0x315, 232), (0x316, 0x319, 220), (0x31A, 0x31A, 232),
     (0x31B, 0x31B, 216), (0x31C, 0x320, 220), (0x321, 0x322, 202), (0x323, 0x326, 220),
     (0x327, 0x328, 202), (0x329, 0x333, 220), (0x334, 0x338, 1), (0x339, 0x33C, 220),
     (0x33D, 0x344, 230), (0x345, 0x345, 240), (0x346, 0x346, 230), (0x347, 0x349, 220),
     (0x34A, 0x34C, 230), (0x34D, 0x34E, 220), (0x34F, 0x34F, 0), (0x350, 0x352, 230),
     (0x353, 0x356, 220), (0x357, 0x357, 230), (0x358, 0x358, 232), (0x359, 0x35A, 220),
     (0x35B, 0x35B, 230), (0x35C, 0x35C, 233), (0x35D, 0x35E, 234), (0x35F, 0x35F, 233),
     (0x360, 0x361, 234), (0x362, 0x362, 233), (0x363, 0x36F, 230)]"

definition ccc :: "nat \<Rightarrow> nat" where
  "ccc c =
     (if c < 0x300 \<or> 0x36F < c then 0
      else case find (\<lambda>(lo, hi, k). lo \<le> c \<and> c \<le> hi) ccc_table of
             Some (lo, hi, k) \<Rightarrow> k
           | None \<Rightarrow> 0)"

text \<open>
  Canonical ordering: every maximal run of code units that are not starters is sorted by
  combining class, and the sort is stable.
\<close>

function reorder :: "jstring \<Rightarrow> jstring" where
  "reorder [] = []"
| "reorder (c # cs) =
     (if ccc c = 0 then c # reorder cs
      else sort_key ccc (takeWhile (\<lambda>d. ccc d \<noteq> 0) (c # cs)) @
           reorder (dropWhile (\<lambda>d. ccc d \<noteq> 0) (c # cs)))"
  by pat_completeness auto
termination
  by (relation "measure length") (auto simp: length_dropWhile_le less_Suc_eq_le)

text \<open>NFD: every code unit is decomposed, then the marks are put in canonical order.\<close>

definition normalizeNFD :: "jstring \<Rightarrow> jstring" where
  "normalizeNFD s = reorder (concat (map decompose s))"

subsection \<open>Regular expressions and string methods\<close>

text \<open>The character class of the code units U+0300 to U+036F (combining marks).\<close>

definition is_combining :: "nat \<Rightarrow> bool" where
  "is_combining c \<longleftrightarrow> 0x300 \<le> c \<and> c \<le> 0x36F"

text \<open>
  The white-space class of regular expressions, which is also what \<open>trim\<close> removes:
  the white space and line terminator code points of ECMAScript.
\<close>

definition is_space :: "nat \<Rightarrow> bool" where
  "is_space c \<longleftrightarrow>
     (0x09 \<le> c \<and> c \<le> 0x0D) \<or> c = 0x20 \<or> c = 0xA0 \<or> c = 0x1680 \<or>
     (0x2000 \<le> c \<and> c \<le> 0x200A) \<or> c = 0x2028 \<or> c = 0x2029 \<or> c = 0x202F \<or>
     c = 0x205F \<or> c = 0x3000 \<or> c = 0xFEFF"

text \<open>The digit class of regular expressions.\<close>

definition is_digit :: "nat \<Rightarrow> bool" where
  "is_digit c \<longleftrightarrow> 0x30 \<le> c \<and> c \<le> 0x39"

text \<open>
  The class \<open>[kgl]\<close> under the flag \<open>i\<close> (without the flag \<open>u\<close>): the six letters
  k, g, l, K, G, L.
\<close>

definition is_unit :: "nat \<Rightarrow> bool" where
  "is_unit c \<longleftrightarrow> c \<in> set (ascii ''kglKGL'')"

text \<open>Global replacement of the combining-mark class by the empty string.\<close>

definition strip_marks :: "jstring \<Rightarrow> jstring" where
  "strip_marks s = filter (\<lambda>c. \<not> is_combining c) s"

text \<open>Global replacement of the hyphen by a space.\<close>

definition hyphens_to_spaces :: "jstring \<Rightarrow> jstring" where
  "hyphens_to_spaces s = map (\<lambda>c. if c = 0x2D then 0x20 else c) s"

text \<open>
  Global replacement of one or more white-space code units by a space: each maximal run
  of white space becomes one space.
\<close>

function collapse_spaces :: "jstring \<Rightarrow> jstring" where
  "collapse_spaces [] = []"
| "collapse_spaces (c # cs) =
     (if is_space c then 0x20 # collapse_spaces (dropWhile is_space cs)
      else c # collapse_spaces cs)"
  by pat_completeness auto
termination
  by (relation "measure length") (auto simp: length_dropWhile_le less_Suc_eq_le)

text \<open>
  Global replacement of a literal word \<open>p\<close> by a literal \<open>r\<close>: the scan goes from
  left to right, a match is replaced and the scan resumes after it.
\<close>

function replace_all :: "jstring \<Rightarrow> jstring \<Rightarrow> jstring \<Rightarrow> jstring" where
  "replace_all p r [] = []"
| "replace_all p r (c # cs) =
     (if p \<noteq> [] \<and> prefix p (c # cs)
      then r @ replace_all p r (drop (length p) (c # cs))
      else c # replace_all p r cs)"
  by pat_completeness auto
termination
  by (relation "measure (\<lambda>(p, r, s). length s)") (auto simp: Suc_le_eq)

text \<open>\<open>s.trim()\<close>\<close>

definition trim :: "jstring \<Rightarrow> jstring" where
  "trim s = rev (dropWhile is_space (rev (dropWhile is_space s)))"

text \<open>\<open>s.includes(p)\<close>\<close>

definition includes_str :: "jstring \<Rightarrow> jstring \<Rightarrow> bool" where
  "includes_str s p \<longleftrightarrow> sublist p s"

section \<open>normalizeTitle\<close>

definition normalizeTitle :: "jstring \<Rightarrow> jstring" where
  "normalizeTitle title =
     trim
       (replace_all (ascii ''quilo'') (ascii ''kg'')
         (replace_all (ascii ''litro'') (ascii ''l'')
           (collapse_spaces
             (hyphens_to_spaces
               (strip_marks
                 (normalizeNFD
                   (toLowerCase title)))))))"

section \<open>generateProductKey\<close>

subsection \<open>The size pattern\<close>

text \<open>
  \<open>normalizedTitle.match(sizeRegex)\<close>, where \<open>sizeRegex\<close> is one or more digits
  (group 1), any white space, one of the letters k, g, l in either case (group 2). The
  matcher is the backtracking one of the language: quantifiers are greedy and give
  characters back when the rest of the pattern fails, and the start positions are tried
  from left to right. The result is the pair of the two groups of the first match.
\<close>

fun match_unit :: "jstring \<Rightarrow> nat option" where
  "match_unit [] = None"
| "match_unit (c # cs) = (if is_unit c then Some c else None)"

fun match_spaces_unit :: "jstring \<Rightarrow> nat option" where
  "match_spaces_unit [] = None"
| "match_spaces_unit (c # cs) =
     (if is_space c
      then (case match_spaces_unit cs of Some u \<Rightarrow> Some u | None \<Rightarrow> match_unit (c # cs))
      else match_unit (c # cs))"

text \<open>\<open>match_digits ds s\<close>: the digits \<open>ds\<close> are read already, \<open>s\<close> is what follows.\<close>

fun match_digits :: "jstring \<Rightarrow> jstring \<Rightarrow> (jstring \<times> nat) option" where
  "match_digits ds [] = None"
| "match_digits ds (c # cs) =
     (if is_digit c
      then (case match_digits (ds @ [c]) cs of
              Some m \<Rightarrow> Some m
            | None \<Rightarrow> map_option (Pair ds) (match_spaces_unit (c # cs)))
      else map_option (Pair ds) (match_spaces_unit (c # cs)))"

fun match_here :: "jstring \<Rightarrow> (jstring \<times> nat) option" where
  "match_here [] = None"
| "match_here (c # cs) = (if is_digit c then match_digits [c] cs else None)"

fun sizeRegex_match :: "jstring \<Rightarrow> (jstring \<times> nat) option" where
  "sizeRegex_match [] = None"
| "sizeRegex_match (c # cs) =
     (case match_here (c # cs) of Some m \<Rightarrow> Some m | None \<Rightarrow> sizeRegex_match cs)"

subsection \<open>The four features and the key\<close>

record key_fields =
  productType :: jstring
  brand :: jstring
  variant :: jstring
  size_token :: jstring

definition leite_variant :: "jstring \<Rightarrow> jstring" where
  "leite_variant t =
     (if includes_str t (ascii ''integral'') then ascii ''integral''
      else if includes_str t (ascii ''semi desnatado'') \<or> includes_str t (ascii ''semi-desnatado'')
        then ascii ''semi desnatado''
      else if includes_str t (ascii ''desnatado'') then ascii ''desnatado''
      else [])"

definition leite_brand :: "jstring \<Rightarrow> jstring" where
  "leite_brand t =
     (if includes_str t (ascii ''piracanjuba'') then ascii ''piracanjuba''
      else if includes_str t (ascii ''italac'') then ascii ''italac''
      else if includes_str t (ascii ''parmalat'') then ascii ''parmalat''
      else [])"

definition arroz_variant :: "jstring \<Rightarrow> jstring" where
  "arroz_variant t =
     (if includes_str t (ascii ''branco'') then ascii ''branco''
      else if includes_str t (ascii ''integral'') then ascii ''integral''
      else [])"

definition arroz_brand :: "jstring \<Rightarrow> jstring" where
  "arroz_brand t = (if includes_str t (ascii ''tio joao'') then ascii ''tio joao'' else [])"

definition feijao_variant :: "jstring \<Rightarrow> jstring" where
  "feijao_variant t = (if includes_str t (ascii ''carioca'') then ascii ''carioca'' else [])"

definition feijao_brand :: "jstring \<Rightarrow> jstring" where
  "feijao_brand t = (if includes_str t (ascii ''camil'') then ascii ''camil'' else [])"

text \<open>The second spelling tested by the third rule: f, e, i, j, U+00E3, o.\<close>

definition feijao_tilde :: jstring where
  "feijao_tilde = ascii ''feij'' @ [0xE3] @ ascii ''o''"

text \<open>The four variables after the chain of product types, before the size is read.\<close>

definition typeFields :: "jstring \<Rightarrow> key_fields" where
  "typeFields t =
     (if includes_str t (ascii ''leite'') then
        \<lparr>productType = ascii ''leite'', brand = leite_brand t, variant = leite_variant t,
         size_token = []\<rparr>
      else if includes_str t (ascii ''arroz'') then
        \<lparr>productType = ascii ''arroz'', brand = arroz_brand t, variant = arroz_variant t,
         size_token = []\<rparr>
      else if includes_str t (ascii ''feijao'') \<or> includes_str t feijao_tilde then
        \<lparr>productType = ascii ''feijao'', brand = feijao_brand t, variant = feijao_variant t,
         size_token = []\<rparr>
      else \<lparr>productType = [], brand = [], variant = [], size_token = []\<rparr>)"

text \<open>The four variables at the return statement.\<close>

definition extractFields :: "jstring \<Rightarrow> key_fields" where
  "extractFields t =
     (case sizeRegex_match t of
        Some (digits, unit) \<Rightarrow> (typeFields t)\<lparr>size_token := digits @ toLowerCase [unit]\<rparr>
      | None \<Rightarrow> typeFields t)"

definition generateProductKey :: "jstring \<Rightarrow> jstring" where
  "generateProductKey t =
     (let f = extractFields t
      in productType f @ ascii ''-'' @ brand f @ ascii ''-'' @ variant f @ ascii ''-'' @
         size_token f)"

section \<open>categorizeProducts\<close>

record product =
  title :: jstring
  supermarket :: jstring

text \<open>A value of \<open>categoriesMap\<close>, and an element of the result.\<close>

record entry =
  entry_category :: jstring
  entry_products :: "product list"

record category =
  category :: jstring
  count :: nat
  products :: "product list"

text \<open>
  \<open>categoriesMap\<close> is a \<open>Map\<close>, which iterates in the order of first insertion: a list
  of pairs of a key and a value, a new key added at the end.
\<close>

definition map_has :: "(jstring \<times> entry) list \<Rightarrow> jstring \<Rightarrow> bool" where
  "map_has m k \<longleftrightarrow> k \<in> set (map fst m)"

text \<open>\<open>categoriesMap.get(key).products.push(productInfo)\<close>\<close>

definition push_product :: "(jstring \<times> entry) list \<Rightarrow> jstring \<Rightarrow> product \<Rightarrow> (jstring \<times> entry) list" where
  "push_product m k info =
     map (\<lambda>(k', e). if k' = k then (k', e\<lparr>entry_products := entry_products e @ [info]\<rparr>)
                     else (k', e)) m"

text \<open>The body of the \<open>forEach\<close>.\<close>

definition add_product :: "(jstring \<times> entry) list \<Rightarrow> product \<Rightarrow> (jstring \<times> entry) list" where
  "add_product m p =
     (let normalizedTitle = normalizeTitle (title p);
          key = generateProductKey normalizedTitle;
          productInfo = \<lparr>title = title p, supermarket = supermarket p\<rparr>
      in if map_has m key then push_product m key productInfo
         else m @ [(key, \<lparr>entry_category = title p, entry_products = [productInfo]\<rparr>)])"

definition categorizeProducts :: "product list \<Rightarrow> category list" where
  "categorizeProducts ps =
     map (\<lambda>(k, e). \<lparr>category = entry_category e, count = length (entry_products e),
                     products = entry_products e\<rparr>)
       (foldl add_product [] ps)"

text \<open>The key that the loop computes for a record.\<close>

definition key_of :: "product \<Rightarrow> jstring" where
  "key_of p = generateProductKey (normalizeTitle (title p))"

section \<open>Notions of the specification\<close>

text \<open>The distinct elements of a list in the order of their first occurrence.\<close>

fun first_seen :: "'a list \<Rightarrow> 'a list" where
  "first_seen [] = []"
| "first_seen (x # xs) = x # removeAll x (first_seen xs)"

text \<open>The records of the input that have a given key, in input order.\<close>

definition members :: "product list \<Rightarrow> jstring \<Rightarrow> product list" where
  "members ps k = filter (\<lambda>p. key_of p = k) ps"

subsection \<open>The steps of the normalizer, from the words of the specification\<close>





















definition no_space :: "jstring \<Rightarrow> bool" where
  "no_space p \<longleftrightarrow> list_all (\<lambda>c. \<not> is_space c) p"

text \<open>
  An occurrence of the size pattern at the start of \<open>s\<close>, in the words of the
  specification: the digits \<open>ds\<close>, optional white space, the unit letter \<open>u\<close>.
\<close>

definition size_occurrence :: "jstring \<Rightarrow> jstring \<Rightarrow> nat \<Rightarrow> bool" where
  "size_occurrence s ds u \<longleftrightarrow>
     ds \<noteq> [] \<and> list_all is_digit ds \<and> is_unit u \<and>
     (\<exists>ws b. list_all is_space ws \<and> s = ds @ ws @ [u] @ b)"

text \<open>The same, computed: the longest run of digits, then the longest run of white space.\<close>

definition size_at :: "jstring \<Rightarrow> (jstring \<times> nat) option" where
  "size_at s =
     (let ds = takeWhile is_digit s; r = dropWhile is_space (dropWhile is_digit s)
      in if ds \<noteq> [] \<and> r \<noteq> [] \<and> is_unit (hd r) then Some (ds, hd r) else None)"

definition has_size_occurrence :: "jstring \<Rightarrow> bool" where
  "has_size_occurrence t \<longleftrightarrow> (\<exists>j ds u. size_occurrence (drop j t) ds u)"

text \<open>
  In the title \<open>a @ w @ b\<close> no occurrence of the size pattern starts before \<open>w\<close>: the
  first occurrence, if \<open>w\<close> starts one, comes from \<open>w\<close>.
\<close>

definition first_size_text :: "jstring \<Rightarrow> jstring \<Rightarrow> jstring \<Rightarrow> bool" where
  "first_size_text a w b \<longleftrightarrow> (\<forall>j<length a. \<forall>ds u. \<not> size_occurrence (drop j (a @ w @ b)) ds u)"

text \<open>
  A normalized title without a marker of a product type and without a size. The brand
  and variant markers are read only under a product type, so they need no mention.
\<close>

definition unclassified :: "jstring \<Rightarrow> bool" where
  "unclassified t \<longleftrightarrow>
     \<not> includes_str t (ascii ''leite'') \<and> \<not> includes_str t (ascii ''arroz'') \<and>
     \<not> includes_str t (ascii ''feijao'') \<and> \<not> includes_str t feijao_tilde \<and>
     \<not> has_size_occurrence t"

text \<open>
  What the first three steps of the normalizer (lower case, decomposition, removal of
  the marks) make of one code unit.
\<close>

definition fold_unit :: "nat \<Rightarrow> jstring" where
  "fold_unit c = strip_marks (decompose (lower_unit c))"

text \<open>A code unit that these three steps leave as it is.\<close>

definition plain :: "nat \<Rightarrow> bool" where
  "plain c \<longleftrightarrow> lower_unit c = c \<and> decompose c = [c] \<and> \<not> is_combining c"

text \<open>A code unit that is plain, is no hyphen, and is the space if it is white space.\<close>

definition tidy :: "nat \<Rightarrow> bool" where
  "tidy c \<longleftrightarrow> plain c \<and> c \<noteq> 0x2D \<and> (is_space c \<longrightarrow> c = 0x20)"

text \<open>A string without two white-space code units in a row.\<close>

fun spaced :: "jstring \<Rightarrow> bool" where
  "spaced [] = True"
| "spaced [c] = True"
| "spaced (c # d # cs) = (\<not> (is_space c \<and> is_space d) \<and> spaced (d # cs))"

text \<open>
  The key extractor with the test for the spelling with the tilde deleted from the third
  rule; everything else is as in \<open>generateProductKey\<close>.
\<close>

definition typeFields_no_tilde :: "jstring \<Rightarrow> key_fields" where
  "typeFields_no_tilde t =
     (if includes_str t (ascii ''leite'') then
        \<lparr>productType = ascii ''leite'', brand = leite_brand t, variant = leite_variant t,
         size_token = []\<rparr>
      else if includes_str t (ascii ''arroz'') then
        \<lparr>productType = ascii ''arroz'', brand = arroz_brand t, variant = arroz_variant t,
         size_token = []\<rparr>
      else if includes_str t (ascii ''feijao'') then
        \<lparr>productType = ascii ''feijao'', brand = feijao_brand t, variant = feijao_variant t,
         size_token = []\<rparr>
      else \<lparr>productType = [], brand = [], variant = [], size_token = []\<rparr>)"

definition extractFields_no_tilde :: "jstring \<Rightarrow> key_fields" where
  "extractFields_no_tilde t =
     (case sizeRegex_match t of
        Some (digits, unit) \<Rightarrow> (typeFields_no_tilde t)\<lparr>size_token := digits @ toLowerCase [unit]\<rparr>
      | None \<Rightarrow> typeFields_no_tilde t)"

definition generateProductKey_no_tilde :: "jstring \<Rightarrow> jstring" where
  "generateProductKey_no_tilde t =
     (let f = extractFields_no_tilde t
      in productType f @ ascii ''-'' @ brand f @ ascii ''-'' @ variant f @ ascii ''-'' @
         size_token f)"



section \<open>Evaluation\<close>

lemmas text_eval =
  ascii_def toLowerCase_def lower_unit_def normalizeNFD_def decompose_def nfd_table_def
  mark_table_def ccc_def
  strip_marks_def is_combining_def hyphens_to_spaces_def is_space_def trim_def is_digit_def
  is_unit_def includes_str_def normalizeTitle_def

lemmas key_eval =
  leite_variant_def leite_brand_def arroz_variant_def arroz_brand_def feijao_variant_def
  feijao_brand_def feijao_tilde_def typeFields_def extractFields_def generateProductKey_def
  sublist_Cons_right

lemma key_leite_mixed:
  "generateProductKey (normalizeTitle (ascii ''Leite Integral Piracanjuba 1L'')) =
   ascii ''leite-piracanjuba-integral-1l''"
  by (simp add: text_eval key_eval)

lemma key_leite_upper:
  "generateProductKey (normalizeTitle (ascii ''LEITE INTEGRAL PIRACANJUBA 1l'')) =
   ascii ''leite-piracanjuba-integral-1l''"
  by (simp add: text_eval key_eval)


lemma key_arroz:
  "generateProductKey (normalizeTitle (ascii ''Arroz Branco Tio Jo'' @ 0xE3 # ascii ''o 5kg'')) =
   ascii ''arroz-tio joao-branco-5k''"
  by (simp add: text_eval key_eval)

section \<open>The aggregation\<close>

lemma members_empty: "k \<notin> set (map key_of ps) \<Longrightarrow> members ps k = []"
  by (induction ps) (auto simp: members_def)

lemma set_first_seen [simp]: "set (first_seen xs) = set xs"
  by (induction xs) auto

lemma first_seen_snoc:
  "first_seen (xs @ [y]) = (if y \<in> set xs then first_seen xs else first_seen xs @ [y])"
  by (induction xs) auto

lemma distinct_first_seen [simp]: "distinct (first_seen xs)"
  by (induction xs) (auto simp: distinct_removeAll)

lemma add_product_eq:
  "add_product m p =
     (if map_has m (key_of p) then push_product m (key_of p) p
      else m @ [(key_of p, \<lparr>entry_category = title p, entry_products = [p]\<rparr>)])"
  by (cases p) (simp add: add_product_def key_of_def Let_def)

lemma fold_add_product:
  "foldl add_product [] ps =
     map (\<lambda>k. (k, \<lparr>entry_category = title (hd (members ps k)), entry_products = members ps k\<rparr>))
       (first_seen (map key_of ps))"
proof (induction ps rule: rev_induct)
  case Nil
  show ?case by simp
next
  case (snoc p ps)
  let ?k = "key_of p"
  let ?m = "foldl add_product [] ps"
  have keys: "map fst ?m = first_seen (map key_of ps)"
    by (simp add: snoc.IH comp_def)
  show ?case
  proof (cases "?k \<in> set (map key_of ps)")
    case True
    then have ne: "members ps ?k \<noteq> []"
      by (auto simp: members_def filter_empty_conv)
    have has: "map_has ?m ?k"
      using True by (simp add: map_has_def keys)
    have "foldl add_product [] (ps @ [p]) = push_product ?m ?k p"
      using has by (simp add: add_product_eq)
    also have "\<dots> = map (\<lambda>k. (k, \<lparr>entry_category = title (hd (members (ps @ [p]) k)),
                                   entry_products = members (ps @ [p]) k\<rparr>))
                      (first_seen (map key_of ps))"
      using ne by (auto simp: snoc.IH push_product_def members_def)
    finally show ?thesis
      using True by (simp add: first_seen_snoc)
  next
    case False
    then have emp: "members ps ?k = []"
      by (rule members_empty)
    have has: "\<not> map_has ?m ?k"
      using False by (simp add: map_has_def keys)
    have "foldl add_product [] (ps @ [p]) =
            ?m @ [(?k, \<lparr>entry_category = title p, entry_products = [p]\<rparr>)]"
      using has by (simp add: add_product_eq)
    also have "?m = map (\<lambda>k. (k, \<lparr>entry_category = title (hd (members (ps @ [p]) k)),
                                   entry_products = members (ps @ [p]) k\<rparr>))
                      (first_seen (map key_of ps))"
      using False by (fastforce simp: snoc.IH members_def)
    finally show ?thesis
      using False emp by (simp add: first_seen_snoc members_def)
  qed
qed

lemma categorize_char:
  "categorizeProducts ps =
     map (\<lambda>k. \<lparr>category = title (hd (members ps k)), count = length (members ps k),
                products = members ps k\<rparr>)
       (first_seen (map key_of ps))"
  by (simp add: categorizeProducts_def fold_add_product comp_def)

lemma count_list_distinct:
  "distinct ks \<Longrightarrow> count_list ks x = (if x \<in> set ks then 1 else 0)"
  by (induction ks) auto

lemma sum_members_snoc:
  "sum_list (map (\<lambda>k. length (members (ps @ [p]) k)) ks) =
   sum_list (map (\<lambda>k. length (members ps k)) ks) + count_list ks (key_of p)"
  by (induction ks) (auto simp: members_def)

lemma sum_members:
  "sum_list (map (\<lambda>k. length (members ps k)) (first_seen (map key_of ps))) = length ps"
proof (induction ps rule: rev_induct)
  case Nil
  show ?case by simp
next
  case (snoc p ps)
  show ?case
  proof (cases "key_of p \<in> set (map key_of ps)")
    case True
    then show ?thesis
      using snoc.IH by (simp add: first_seen_snoc sum_members_snoc count_list_distinct)
  next
    case False
    then have "members ps (key_of p) = []"
      by (rule members_empty)
    then have "members (ps @ [p]) (key_of p) = [p]"
      by (simp add: members_def)
    then show ?thesis
      using snoc.IH False
      by (simp add: first_seen_snoc sum_members_snoc count_list_distinct)
  qed
qed

text \<open>
  C1: for every input sequence the counts of the returned categories add up to the number
  of input records, and in every returned category the count is the length of its list of
  products.
\<close>

theorem categorize_counts:
  "sum_list (map count (categorizeProducts ps)) = length ps \<and>
   map count (categorizeProducts ps) = map (\<lambda>c. length (products c)) (categorizeProducts ps)"
  using sum_members [of ps] by (simp add: categorize_char comp_def)

text \<open>
  C5: the categories come in the order in which their keys are first seen in the input;
  the products of a category are the input records with its key, in input order; its title
  is the original title of the first of them. So for records A, B, A' where A and A' have
  one key and B has another, the result is the category of A with the members A, A' and
  the title of A, then the category of B.
\<close>

theorem categorize_first_seen_order:
  "categorizeProducts ps =
     map (\<lambda>k. \<lparr>category = title (hd (members ps k)), count = length (members ps k),
                products = members ps k\<rparr>)
       (first_seen (map key_of ps)) \<and>
   (key_of a = key_of a' \<and> key_of b \<noteq> key_of a \<longrightarrow>
    categorizeProducts [a, b, a'] =
      [\<lparr>category = title a, count = 2, products = [a, a']\<rparr>,
       \<lparr>category = title b, count = 1, products = [b]\<rparr>])"
  by (auto simp: categorize_char members_def)

theorem categorize_first_seen_order_witness:
  "categorizeProducts
     [\<lparr>title = ascii ''Leite Integral Piracanjuba 1L'', supermarket = ascii ''X''\<rparr>,
      \<lparr>title = ascii ''Arroz Branco Tio Jo'' @ 0xE3 # ascii ''o 5kg'', supermarket = ascii ''X''\<rparr>,
      \<lparr>title = ascii ''LEITE INTEGRAL PIRACANJUBA 1l'', supermarket = ascii ''Y''\<rparr>] =
   [\<lparr>category = ascii ''Leite Integral Piracanjuba 1L'', count = 2,
     products =
       [\<lparr>title = ascii ''Leite Integral Piracanjuba 1L'', supermarket = ascii ''X''\<rparr>,
        \<lparr>title = ascii ''LEITE INTEGRAL PIRACANJUBA 1l'', supermarket = ascii ''Y''\<rparr>]\<rparr>,
    \<lparr>category = ascii ''Arroz Branco Tio Jo'' @ 0xE3 # ascii ''o 5kg'', count = 1,
     products =
       [\<lparr>title = ascii ''Arroz Branco Tio Jo'' @ 0xE3 # ascii ''o 5kg'', supermarket = ascii ''X''\<rparr>]\<rparr>]"
proof -
  let ?a = "\<lparr>title = ascii ''Leite Integral Piracanjuba 1L'', supermarket = ascii ''X''\<rparr>"
  let ?b = "\<lparr>title = ascii ''Arroz Branco Tio Jo'' @ 0xE3 # ascii ''o 5kg'', supermarket = ascii ''X''\<rparr>"
  let ?a' = "\<lparr>title = ascii ''LEITE INTEGRAL PIRACANJUBA 1l'', supermarket = ascii ''Y''\<rparr>"
  have same: "key_of ?a = key_of ?a'"
    by (simp add: key_of_def key_leite_mixed key_leite_upper)
  have other: "key_of ?b \<noteq> key_of ?a"
    by (simp add: key_of_def key_leite_mixed key_arroz) (simp add: ascii_def)
  from categorize_first_seen_order [of "[]" ?a ?a' ?b] same other
  show ?thesis by simp
qed

section \<open>The key extractor\<close>

subsection \<open>The size pattern\<close>

lemma unit_not_space: "is_unit c \<Longrightarrow> \<not> is_space c"
  by (auto simp: is_unit_def is_space_def ascii_def)

lemma unit_not_digit: "is_unit c \<Longrightarrow> \<not> is_digit c"
  by (auto simp: is_unit_def is_digit_def ascii_def)

lemma space_not_digit: "is_space c \<Longrightarrow> \<not> is_digit c"
  by (auto simp: is_space_def is_digit_def)

lemma match_spaces_unit_eq:
  "match_spaces_unit s =
     (let r = dropWhile is_space s in if r \<noteq> [] \<and> is_unit (hd r) then Some (hd r) else None)"
  by (induction s) (auto simp: unit_not_space Let_def)

lemma match_digits_eq:
  "match_digits acc s =
     map_option (Pair (acc @ takeWhile is_digit s)) (match_spaces_unit (dropWhile is_digit s))"
proof (induction s arbitrary: acc)
  case Nil
  show ?case by simp
next
  case (Cons c cs)
  show ?case
  proof (cases "is_digit c")
    case True
    then have "match_spaces_unit (c # cs) = None"
      using unit_not_digit space_not_digit by auto
    then show ?thesis
      using True by (simp add: Cons.IH split: option.splits)
  next
    case False
    then show ?thesis by simp
  qed
qed

lemma match_here_eq: "match_here s = size_at s"
proof (cases s)
  case Nil
  then show ?thesis by (simp add: size_at_def)
next
  case (Cons c cs)
  show ?thesis
  proof (cases "is_digit c")
    case True
    then show ?thesis
      by (simp add: Cons size_at_def match_digits_eq match_spaces_unit_eq Let_def)
  next
    case False
    then show ?thesis
      by (simp add: Cons size_at_def)
  qed
qed

lemma takeWhile_stop:
  "list_all P ds \<Longrightarrow> rest = [] \<or> \<not> P (hd rest) \<Longrightarrow>
   takeWhile P (ds @ rest) = ds \<and> dropWhile P (ds @ rest) = rest"
  by (cases rest) (simp_all add: list_all_iff takeWhile_append2 dropWhile_append2)

lemma size_at_iff: "size_at s = Some (ds, u) \<longleftrightarrow> size_occurrence s ds u"
proof
  assume a: "size_at s = Some (ds, u)"
  let ?r = "dropWhile is_space (dropWhile is_digit s)"
  from a have ds: "ds = takeWhile is_digit s" "ds \<noteq> []"
    and r: "?r \<noteq> []" "hd ?r = u" "is_unit u"
    by (auto simp: size_at_def Let_def split: if_splits)
  have "s = ds @ takeWhile is_space (dropWhile is_digit s) @ [u] @ tl ?r"
    using ds r by (metis append_Cons append_Nil hd_Cons_tl takeWhile_dropWhile_id)
  moreover have "list_all is_digit ds" "list_all is_space (takeWhile is_space (dropWhile is_digit s))"
    using ds by (auto simp: list_all_iff dest: set_takeWhileD)
  ultimately show "size_occurrence s ds u"
    using ds r unfolding size_occurrence_def by blast
next
  assume "size_occurrence s ds u"
  then obtain ws b where h: "ds \<noteq> []" "list_all is_digit ds" "is_unit u"
      "list_all is_space ws" "s = ds @ ws @ [u] @ b"
    unfolding size_occurrence_def by blast
  have nd: "ws @ [u] @ b = [] \<or> \<not> is_digit (hd (ws @ [u] @ b))"
    using h by (cases ws) (auto simp: unit_not_digit space_not_digit)
  have t: "takeWhile is_digit s = ds" "dropWhile is_digit s = ws @ [u] @ b"
    using takeWhile_stop [OF h(2) nd] h(5) by simp_all
  have "dropWhile is_space (ws @ [u] @ b) = [u] @ b"
    using takeWhile_stop [OF h(4), of "[u] @ b"] h(3) by (simp add: unit_not_space)
  then show "size_at s = Some (ds, u)"
    using h t by (simp add: size_at_def)
qed

lemma sizeRegex_first:
  "match_here (drop i t) = Some m \<Longrightarrow> (\<And>j. j < i \<Longrightarrow> match_here (drop j t) = None) \<Longrightarrow>
   sizeRegex_match t = Some m"
proof (induction t arbitrary: i)
  case Nil
  then show ?case by simp
next
  case (Cons c cs)
  show ?case
  proof (cases i)
    case 0
    then show ?thesis using Cons.prems(1) by simp
  next
    case (Suc k)
    have "match_here (c # cs) = None"
      using Cons.prems(2) [of 0] Suc by simp
    moreover have "sizeRegex_match cs = Some m"
    proof (rule Cons.IH [of k])
      show "match_here (drop k cs) = Some m"
        using Cons.prems(1) Suc by simp
      show "match_here (drop j cs) = None" if "j < k" for j
        using Cons.prems(2) [of "Suc j"] that Suc by simp
    qed
    ultimately show ?thesis by simp
  qed
qed

lemma sizeRegex_none:
  "(\<And>j. match_here (drop j t) = None) \<Longrightarrow> sizeRegex_match t = None"
proof (induction t)
  case Nil
  show ?case by simp
next
  case (Cons c cs)
  have "match_here (c # cs) = None"
    using Cons.prems [of 0] by simp
  moreover have "sizeRegex_match cs = None"
  proof (rule Cons.IH)
    show "match_here (drop j cs) = None" for j
      using Cons.prems [of "Suc j"] by simp
  qed
  ultimately show ?case by simp
qed

lemma size_token_typeFields: "size_token (typeFields t) = []"
  by (simp add: typeFields_def)

lemma size_token_extractFields:
  "size_token (extractFields t) =
     (case sizeRegex_match t of Some (ds, u) \<Rightarrow> ds @ toLowerCase [u] | None \<Rightarrow> [])"
  by (simp add: extractFields_def size_token_typeFields split: option.splits)

lemma no_occurrence_None:
  "(\<And>ds u. \<not> size_occurrence s ds u) \<Longrightarrow> match_here s = None"
  using size_at_iff [of s] by (cases "size_at s") (auto simp: match_here_eq)

lemma below_5: "j < 5 \<longleftrightarrow> j = 0 \<or> j = 1 \<or> j = 2 \<or> j = 3 \<or> j = (4::nat)"
  by arith

text \<open>
  C9: the size is read whatever the product type is. If the title has an occurrence of
  digits, optional white space and one of the letters k, g, l in either case, and no
  occurrence starts further left, the size token is the digits followed by the letter in
  lower case; later occurrences play no role. If the title has no occurrence, the size
  token is empty.
\<close>

theorem size_first_occurrence:
  "(size_occurrence (drop i t) ds u \<and> (\<forall>j<i. \<forall>ds' u'. \<not> size_occurrence (drop j t) ds' u') \<longrightarrow>
      size_token (extractFields t) = ds @ toLowerCase [u]) \<and>
   ((\<forall>j ds' u'. \<not> size_occurrence (drop j t) ds' u') \<longrightarrow> size_token (extractFields t) = [])"
proof (intro conjI impI)
  assume a: "size_occurrence (drop i t) ds u \<and> (\<forall>j<i. \<forall>ds' u'. \<not> size_occurrence (drop j t) ds' u')"
  then have "match_here (drop i t) = Some (ds, u)"
    by (simp add: match_here_eq size_at_iff)
  moreover have "match_here (drop j t) = None" if "j < i" for j
    using a that by (intro no_occurrence_None) simp
  ultimately have "sizeRegex_match t = Some (ds, u)"
    by (rule sizeRegex_first)
  then show "size_token (extractFields t) = ds @ toLowerCase [u]"
    by (simp add: size_token_extractFields)
next
  assume a: "\<forall>j ds' u'. \<not> size_occurrence (drop j t) ds' u'"
  have "sizeRegex_match t = None"
    by (rule sizeRegex_none) (use a in \<open>simp add: no_occurrence_None\<close>)
  then show "size_token (extractFields t) = []"
    by (simp add: size_token_extractFields)
qed

theorem size_first_occurrence_witness:
  "size_occurrence (drop 5 (ascii ''cafe 900 G 1l'')) (ascii ''900'') 0x47 \<and>
   size_token (extractFields (ascii ''cafe 900 G 1l'')) = ascii ''900g''"
proof -
  have here: "size_occurrence (drop 5 (ascii ''cafe 900 G 1l'')) (ascii ''900'') 0x47"
    by (simp add: size_at_iff [symmetric] size_at_def text_eval)
  have "size_at (drop j (ascii ''cafe 900 G 1l'')) = None" if "j < 5" for j
    using that by (auto simp: below_5 size_at_def text_eval)
  then have before: "\<forall>j<5. \<forall>ds' u'. \<not> size_occurrence (drop j (ascii ''cafe 900 G 1l'')) ds' u'"
    by (simp add: size_at_iff [symmetric])
  from size_first_occurrence [of 5 "ascii ''cafe 900 G 1l''" "ascii ''900''" "0x47"] here before
  have "size_token (extractFields (ascii ''cafe 900 G 1l'')) = ascii ''900'' @ toLowerCase [0x47]"
    by blast
  then show ?thesis
    using here by (simp add: text_eval)
qed

lemma size_token_leftmost:
  assumes "size_occurrence (drop i t) ds u"
    and "\<And>j ds' u'. j < i \<Longrightarrow> \<not> size_occurrence (drop j t) ds' u'"
  shows "size_token (extractFields t) = ds @ toLowerCase [u]"
proof -
  have "match_here (drop i t) = Some (ds, u)"
    using assms(1) by (simp add: match_here_eq size_at_iff)
  moreover have "match_here (drop j t) = None" if "j < i" for j
    using assms(2) [OF that] by (intro no_occurrence_None) simp
  ultimately have "sizeRegex_match t = Some (ds, u)"
    by (rule sizeRegex_first)
  then show ?thesis
    by (simp add: size_token_extractFields)
qed

lemma occurrence_1:
  assumes "u \<in> {0x6C, 0x6B}"
  shows "size_occurrence (ascii ''1'' @ u # b) (ascii ''1'') u"
    and "size_occurrence (ascii ''1 '' @ u # b) (ascii ''1'') u"
proof -
  have unit: "is_unit u"
    using assms by (auto simp: is_unit_def ascii_def)
  have one: "ascii ''1'' \<noteq> []" "list_all is_digit (ascii ''1'')"
    by (simp_all add: ascii_def is_digit_def)
  have "list_all is_space [] \<and> ascii ''1'' @ u # b = ascii ''1'' @ [] @ [u] @ b"
    by simp
  then have "\<exists>ws b'. list_all is_space ws \<and> ascii ''1'' @ u # b = ascii ''1'' @ ws @ [u] @ b'"
    by blast
  then show "size_occurrence (ascii ''1'' @ u # b) (ascii ''1'') u"
    unfolding size_occurrence_def using unit one by blast
  have "list_all is_space [0x20] \<and> ascii ''1 '' @ u # b = ascii ''1'' @ [0x20] @ [u] @ b"
    by (simp add: ascii_def is_space_def)
  then have "\<exists>ws b'. list_all is_space ws \<and> ascii ''1 '' @ u # b = ascii ''1'' @ ws @ [u] @ b'"
    by blast
  then show "size_occurrence (ascii ''1 '' @ u # b) (ascii ''1'') u"
    unfolding size_occurrence_def using unit one by blast
qed

lemma below_10:
  "j < 10 \<longleftrightarrow> j = 0 \<or> j = 1 \<or> j = 2 \<or> j = 3 \<or> j = 4 \<or> j = 5 \<or> j = 6 \<or> j = 7 \<or> j = 8 \<or> j = (9::nat)"
  by arith

lemma first_size_text_pack:
  "first_size_text (ascii ''pack 12 x '') (ascii ''1 l'') []"
  "first_size_text (ascii ''pack 12 x '') (ascii ''1 kg'') []"
proof -
  have "size_at (drop j (ascii ''pack 12 x '' @ ascii ''1 l'' @ [])) = None" if "j < 10" for j
    using that by (auto simp: below_10 size_at_def text_eval)
  then show "first_size_text (ascii ''pack 12 x '') (ascii ''1 l'') []"
    by (simp add: first_size_text_def size_at_iff [symmetric] ascii_def)
  have "size_at (drop j (ascii ''pack 12 x '' @ ascii ''1 kg'' @ [])) = None" if "j < 10" for j
    using that by (auto simp: below_10 size_at_def text_eval)
  then show "first_size_text (ascii ''pack 12 x '') (ascii ''1 kg'') []"
    by (simp add: first_size_text_def size_at_iff [symmetric] ascii_def)
qed

text \<open>
  C3, as the code has it: when the first occurrence of the size pattern in a normalized
  title comes from \<open>1 l\<close> or \<open>1l\<close> (what \<open>1 Litro\<close> and \<open>1L\<close> normalize to), the size
  token is \<open>1l\<close>; when it comes from \<open>1 kg\<close> or \<open>1kg\<close> (what \<open>1 Quilo\<close> and \<open>1kg\<close>
  normalize to), the size token is \<open>1k\<close> in both cases: the pattern keeps a single unit
  letter. Digits before the occurrence that start no occurrence play no role.
\<close>

theorem size_unit_synonyms:
  "(first_size_text a (ascii ''1 l'') b \<longrightarrow>
      size_token (extractFields (a @ ascii ''1 l'' @ b)) = ascii ''1l'') \<and>
   (first_size_text a (ascii ''1l'') b \<longrightarrow>
      size_token (extractFields (a @ ascii ''1l'' @ b)) = ascii ''1l'') \<and>
   (first_size_text a (ascii ''1 kg'') b \<longrightarrow>
      size_token (extractFields (a @ ascii ''1 kg'' @ b)) = ascii ''1k'') \<and>
   (first_size_text a (ascii ''1kg'') b \<longrightarrow>
      size_token (extractFields (a @ ascii ''1kg'' @ b)) = ascii ''1k'') \<and>
   normalizeTitle (ascii ''1 Litro'') = ascii ''1 l'' \<and>
   normalizeTitle (ascii ''1L'') = ascii ''1l'' \<and>
   normalizeTitle (ascii ''1 Quilo'') = ascii ''1 kg'' \<and>
   normalizeTitle (ascii ''1kg'') = ascii ''1kg''"
proof (intro conjI impI)
  assume f: "first_size_text a (ascii ''1 l'') b"
  have "size_occurrence (drop (length a) (a @ ascii ''1 l'' @ b)) (ascii ''1'') 0x6C"
    using occurrence_1(2) [of "0x6C" b] by (simp add: ascii_def)
  then have "size_token (extractFields (a @ ascii ''1 l'' @ b)) = ascii ''1'' @ toLowerCase [0x6C]"
    by (rule size_token_leftmost) (use f in \<open>simp add: first_size_text_def\<close>)
  then show "size_token (extractFields (a @ ascii ''1 l'' @ b)) = ascii ''1l''"
    by (simp add: ascii_def toLowerCase_def lower_unit_def)
next
  assume f: "first_size_text a (ascii ''1l'') b"
  have "size_occurrence (drop (length a) (a @ ascii ''1l'' @ b)) (ascii ''1'') 0x6C"
    using occurrence_1(1) [of "0x6C" b] by (simp add: ascii_def)
  then have "size_token (extractFields (a @ ascii ''1l'' @ b)) = ascii ''1'' @ toLowerCase [0x6C]"
    by (rule size_token_leftmost) (use f in \<open>simp add: first_size_text_def\<close>)
  then show "size_token (extractFields (a @ ascii ''1l'' @ b)) = ascii ''1l''"
    by (simp add: ascii_def toLowerCase_def lower_unit_def)
next
  assume f: "first_size_text a (ascii ''1 kg'') b"
  have "size_occurrence (drop (length a) (a @ ascii ''1 kg'' @ b)) (ascii ''1'') 0x6B"
    using occurrence_1(2) [of "0x6B" "0x67 # b"] by (simp add: ascii_def)
  then have "size_token (extractFields (a @ ascii ''1 kg'' @ b)) = ascii ''1'' @ toLowerCase [0x6B]"
    by (rule size_token_leftmost) (use f in \<open>simp add: first_size_text_def\<close>)
  then show "size_token (extractFields (a @ ascii ''1 kg'' @ b)) = ascii ''1k''"
    by (simp add: ascii_def toLowerCase_def lower_unit_def)
next
  assume f: "first_size_text a (ascii ''1kg'') b"
  have "size_occurrence (drop (length a) (a @ ascii ''1kg'' @ b)) (ascii ''1'') 0x6B"
    using occurrence_1(1) [of "0x6B" "0x67 # b"] by (simp add: ascii_def)
  then have "size_token (extractFields (a @ ascii ''1kg'' @ b)) = ascii ''1'' @ toLowerCase [0x6B]"
    by (rule size_token_leftmost) (use f in \<open>simp add: first_size_text_def\<close>)
  then show "size_token (extractFields (a @ ascii ''1kg'' @ b)) = ascii ''1k''"
    by (simp add: ascii_def toLowerCase_def lower_unit_def)
next
  show "normalizeTitle (ascii ''1 Litro'') = ascii ''1 l''"
    by (simp add: text_eval replace_all.simps)
  show "normalizeTitle (ascii ''1L'') = ascii ''1l''"
    by (simp add: text_eval replace_all.simps)
  show "normalizeTitle (ascii ''1 Quilo'') = ascii ''1 kg''"
    by (simp add: text_eval replace_all.simps)
  show "normalizeTitle (ascii ''1kg'') = ascii ''1kg''"
    by (simp add: text_eval replace_all.simps)
qed

theorem size_unit_synonyms_witness:
  "first_size_text (ascii ''pack 12 x '') (ascii ''1 l'') [] \<and>
   first_size_text (ascii ''pack 12 x '') (ascii ''1 kg'') [] \<and>
   normalizeTitle (ascii ''Pack 12 x 1 Litro'') = ascii ''pack 12 x '' @ ascii ''1 l'' @ [] \<and>
   size_token (extractFields (ascii ''pack 12 x '' @ ascii ''1 l'' @ [])) = ascii ''1l'' \<and>
   size_token (extractFields (ascii ''pack 12 x '' @ ascii ''1 kg'' @ [])) = ascii ''1k''"
proof -
  have "normalizeTitle (ascii ''Pack 12 x 1 Litro'') = ascii ''pack 12 x '' @ ascii ''1 l'' @ []"
    by (simp add: text_eval replace_all.simps)
  then show ?thesis
    using size_unit_synonyms [of "ascii ''pack 12 x ''" "[]"] first_size_text_pack by blast
qed

text \<open>The size token of \<open>1 Quilo\<close> is not \<open>1kg\<close>.\<close>

theorem size_quilo_counterexample:
  "size_token (extractFields (normalizeTitle (ascii ''1 Quilo''))) \<noteq> ascii ''1kg''"
  by (simp add: text_eval key_eval replace_all.simps)

subsection \<open>The product type\<close>

text \<open>
  C6: the product type is that of the first rule, in the order leite, arroz, feijao, whose
  marker the title contains, and the empty token when it contains none; the brand and the
  variant are read with the words of that rule only. A title that contains both leite and
  arroz has the type leite, and the word branco of the rule of arroz gives it no variant.
\<close>

theorem productType_priority_chain:
  "productType (extractFields t) =
     (if includes_str t (ascii ''leite'') then ascii ''leite''
      else if includes_str t (ascii ''arroz'') then ascii ''arroz''
      else if includes_str t (ascii ''feijao'') \<or> includes_str t feijao_tilde then ascii ''feijao''
      else []) \<and>
   brand (extractFields t) =
     (if includes_str t (ascii ''leite'') then leite_brand t
      else if includes_str t (ascii ''arroz'') then arroz_brand t
      else if includes_str t (ascii ''feijao'') \<or> includes_str t feijao_tilde then feijao_brand t
      else []) \<and>
   variant (extractFields t) =
     (if includes_str t (ascii ''leite'') then leite_variant t
      else if includes_str t (ascii ''arroz'') then arroz_variant t
      else if includes_str t (ascii ''feijao'') \<or> includes_str t feijao_tilde then feijao_variant t
      else []) \<and>
   productType (extractFields (ascii ''arroz branco com leite'')) = ascii ''leite'' \<and>
   variant (extractFields (ascii ''arroz branco com leite'')) = []"
proof (intro conjI)
  show "productType (extractFields t) =
     (if includes_str t (ascii ''leite'') then ascii ''leite''
      else if includes_str t (ascii ''arroz'') then ascii ''arroz''
      else if includes_str t (ascii ''feijao'') \<or> includes_str t feijao_tilde then ascii ''feijao''
      else [])"
    by (simp add: extractFields_def typeFields_def split: option.splits)
  show "brand (extractFields t) =
     (if includes_str t (ascii ''leite'') then leite_brand t
      else if includes_str t (ascii ''arroz'') then arroz_brand t
      else if includes_str t (ascii ''feijao'') \<or> includes_str t feijao_tilde then feijao_brand t
      else [])"
    by (simp add: extractFields_def typeFields_def split: option.splits)
  show "variant (extractFields t) =
     (if includes_str t (ascii ''leite'') then leite_variant t
      else if includes_str t (ascii ''arroz'') then arroz_variant t
      else if includes_str t (ascii ''feijao'') \<or> includes_str t feijao_tilde then feijao_variant t
      else [])"
    by (simp add: extractFields_def typeFields_def split: option.splits)
  show "productType (extractFields (ascii ''arroz branco com leite'')) = ascii ''leite''"
    by (simp add: text_eval key_eval)
  show "variant (extractFields (ascii ''arroz branco com leite'')) = []"
    by (simp add: text_eval key_eval)
qed

subsection \<open>Titles without markers\<close>

lemma no_digit_no_occurrence:
  assumes "list_all (\<lambda>c. \<not> is_digit c) t"
  shows "\<not> has_size_occurrence t"
proof
  assume "has_size_occurrence t"
  then obtain j ds u ws b where h: "ds \<noteq> []" "list_all is_digit ds" "drop j t = ds @ ws @ [u] @ b"
    unfolding has_size_occurrence_def size_occurrence_def by blast
  then have "hd ds \<in> set (drop j t)" "is_digit (hd ds)"
    by (auto simp: list_all_iff)
  then have "hd ds \<in> set t" "is_digit (hd ds)"
    by (auto dest: in_set_dropD)
  with assms show False
    by (auto simp: list_all_iff)
qed

lemma unclassified_key: "unclassified t \<Longrightarrow> generateProductKey t = ascii ''---''"
proof -
  assume u: "unclassified t"
  then have "\<And>j. match_here (drop j t) = None"
    by (intro no_occurrence_None) (auto simp: unclassified_def has_size_occurrence_def)
  then have "sizeRegex_match t = None"
    by (rule sizeRegex_none)
  then show ?thesis
    using u by (simp add: unclassified_def generateProductKey_def extractFields_def typeFields_def
        ascii_def)
qed

lemma first_seen_const:
  "xs \<noteq> [] \<Longrightarrow> (\<And>x. x \<in> set xs \<Longrightarrow> x = k) \<Longrightarrow> first_seen xs = [k]"
proof (induction xs)
  case Nil
  then show ?case by simp
next
  case (Cons x xs)
  then show ?case
    by (cases xs) auto
qed

lemma normalize_generico:
  "normalizeTitle (ascii ''Produto Gen'' @ 0xE9 # ascii ''rico XYZ'') = ascii ''produto generico xyz''"
  by (simp add: text_eval replace_all.simps)

lemma normalize_sabonete:
  "normalizeTitle (ascii ''Sabonete Azul'') = ascii ''sabonete azul''"
  by (simp add: text_eval replace_all.simps)

lemma unclassified_generico: "unclassified (ascii ''produto generico xyz'')"
  unfolding unclassified_def
  by (intro conjI no_digit_no_occurrence) (simp_all add: text_eval key_eval)

lemma unclassified_sabonete: "unclassified (ascii ''sabonete azul'')"
  unfolding unclassified_def
  by (intro conjI no_digit_no_occurrence) (simp_all add: text_eval key_eval)

text \<open>
  C7: the key extractor is a total function. A title without a type marker and without a
  size has the key of three separators and four empty tokens, and a non-empty input whose
  titles are all of this kind gives one category that holds all of them.
\<close>

theorem unclassified_bucket:
  "(unclassified t \<longrightarrow> generateProductKey t = ascii ''---'') \<and>
   (ps \<noteq> [] \<and> list_all (\<lambda>p. unclassified (normalizeTitle (title p))) ps \<longrightarrow>
      categorizeProducts ps = [\<lparr>category = title (hd ps), count = length ps, products = ps\<rparr>]) \<and>
   generateProductKey (normalizeTitle (ascii ''Produto Gen'' @ 0xE9 # ascii ''rico XYZ'')) =
     ascii ''---''"
proof (intro conjI impI)
  assume "unclassified t"
  then show "generateProductKey t = ascii ''---''"
    by (rule unclassified_key)
next
  assume a: "ps \<noteq> [] \<and> list_all (\<lambda>p. unclassified (normalizeTitle (title p))) ps"
  then have k: "key_of p = ascii ''---''" if "p \<in> set ps" for p
    using that by (simp add: key_of_def list_all_iff unclassified_key)
  then have "first_seen (map key_of ps) = [ascii ''---'']"
    using a by (intro first_seen_const) auto
  moreover have "members ps (ascii ''---'') = ps"
    using k by (simp add: members_def)
  ultimately show "categorizeProducts ps =
      [\<lparr>category = title (hd ps), count = length ps, products = ps\<rparr>]"
    by (simp add: categorize_char)
next
  show "generateProductKey (normalizeTitle (ascii ''Produto Gen'' @ 0xE9 # ascii ''rico XYZ'')) =
     ascii ''---''"
    by (simp add: text_eval key_eval replace_all.simps)
qed

theorem unclassified_bucket_witness:
  "unclassified (ascii ''produto generico xyz'') \<and>
   generateProductKey (ascii ''produto generico xyz'') = ascii ''---'' \<and>
   categorizeProducts
     [\<lparr>title = ascii ''Produto Gen'' @ 0xE9 # ascii ''rico XYZ'', supermarket = ascii ''X''\<rparr>,
      \<lparr>title = ascii ''Sabonete Azul'', supermarket = ascii ''Y''\<rparr>] =
   [\<lparr>category = ascii ''Produto Gen'' @ 0xE9 # ascii ''rico XYZ'', count = 2,
     products =
       [\<lparr>title = ascii ''Produto Gen'' @ 0xE9 # ascii ''rico XYZ'', supermarket = ascii ''X''\<rparr>,
        \<lparr>title = ascii ''Sabonete Azul'', supermarket = ascii ''Y''\<rparr>]\<rparr>]"
proof -
  let ?ps = "[\<lparr>title = ascii ''Produto Gen'' @ 0xE9 # ascii ''rico XYZ'', supermarket = ascii ''X''\<rparr>,
      \<lparr>title = ascii ''Sabonete Azul'', supermarket = ascii ''Y''\<rparr>]"
  have all: "?ps \<noteq> [] \<and> list_all (\<lambda>p. unclassified (normalizeTitle (title p))) ?ps"
    by (simp add: normalize_generico normalize_sabonete unclassified_generico unclassified_sabonete)
  from unclassified_bucket [of "ascii ''produto generico xyz''" ?ps] unclassified_generico all
  show ?thesis by simp
qed

section \<open>The normalizer\<close>

lemma is_space_32 [simp]: "is_space 32"
  by (simp add: is_space_def)

lemma replace_all_hit:
  "p \<noteq> [] \<Longrightarrow> prefix p (c # cs) \<Longrightarrow>
   replace_all p r (c # cs) = r @ replace_all p r (drop (length p) (c # cs))"
  by simp

lemma replace_all_miss:
  "\<not> (p \<noteq> [] \<and> prefix p (c # cs)) \<Longrightarrow> replace_all p r (c # cs) = c # replace_all p r cs"
  unfolding replace_all.simps by (simp only: if_False)

declare replace_all.simps(2) [simp del]

lemma no_space_prefix: "no_space p \<Longrightarrow> is_space c \<Longrightarrow> \<not> (p \<noteq> [] \<and> prefix p (c # cs))"
  by (cases p) (auto simp: no_space_def)

lemma replace_all_space_head:
  "is_space c \<Longrightarrow> no_space p \<Longrightarrow> replace_all p r (c # cs) = c # replace_all p r cs"
  by (rule replace_all_miss) (rule no_space_prefix)

lemma replace_all_match:
  "p \<noteq> [] \<Longrightarrow> replace_all p r (p @ s) = r @ replace_all p r s"
  by (cases p) (simp_all add: replace_all_hit)

lemma dropWhile_replace_all:
  "no_space p \<Longrightarrow> no_space r \<Longrightarrow> r \<noteq> [] \<Longrightarrow>
   dropWhile is_space (replace_all p r s) = replace_all p r (dropWhile is_space s)"
proof (induction s)
  case Nil
  show ?case by simp
next
  case (Cons c cs)
  show ?case
  proof (cases "is_space c")
    case True
    then show ?thesis
      using Cons by (simp add: replace_all_space_head)
  next
    case False
    have r: "dropWhile is_space (r @ t) = r @ t" for t
      using Cons.prems by (cases r) (simp_all add: no_space_def)
    show ?thesis
    proof (cases "p \<noteq> [] \<and> prefix p (c # cs)")
      case True
      then show ?thesis
        using False by (simp add: replace_all_hit r)
    next
      case nomatch: False
      then show ?thesis
        using False by (simp add: replace_all_miss)
    qed
  qed
qed

lemma collapse_spaces_append:
  "no_space r \<Longrightarrow> collapse_spaces (r @ s) = r @ collapse_spaces s"
  by (induction r) (simp_all add: no_space_def)

lemma prefix_collapse_spaces:
  "no_space p \<Longrightarrow> prefix p (collapse_spaces s) \<longleftrightarrow> prefix p s"
proof (induction p arbitrary: s)
  case Nil
  show ?case by simp
next
  case (Cons x p)
  have p: "no_space p" and x: "\<not> is_space x"
    using Cons.prems by (simp_all add: no_space_def)
  show ?case
  proof (cases s)
    case Nil
    then show ?thesis by simp
  next
    case (Cons c cs)
    show ?thesis
    proof (cases "is_space c")
      case True
      then show ?thesis
        using x Cons by auto
    next
      case False
      then show ?thesis
        using Cons Cons.IH [OF p, of cs] by simp
    qed
  qed
qed

lemma replace_all_collapse_spaces:
  assumes p: "no_space p" and r: "no_space r" "r \<noteq> []"
  shows "replace_all p r (collapse_spaces s) = collapse_spaces (replace_all p r s)"
proof (induction s rule: length_induct)
  case (1 s)
  note IH = "1.IH" [rule_format]
  show ?case
  proof (cases s)
    case Nil
    then show ?thesis by simp
  next
    case (Cons c cs)
    show ?thesis
    proof (cases "is_space c")
      case True
      have "length (dropWhile is_space cs) < length s"
        using Cons by (simp add: length_dropWhile_le less_Suc_eq_le)
      then have "replace_all p r (collapse_spaces (dropWhile is_space cs)) =
                 collapse_spaces (replace_all p r (dropWhile is_space cs))"
        by (rule IH)
      then show ?thesis
        using True Cons p r
        by (simp add: replace_all_space_head dropWhile_replace_all)
    next
      case False
      show ?thesis
      proof (cases "p \<noteq> [] \<and> prefix p s")
        case True
        then obtain rest where rest: "s = p @ rest"
          by (auto simp: prefix_def)
        have "length rest < length s"
          using True rest by simp
        then have "replace_all p r (collapse_spaces rest) = collapse_spaces (replace_all p r rest)"
          by (rule IH)
        then show ?thesis
          using True p r by (simp add: rest collapse_spaces_append replace_all_match)
      next
        case nomatch: False
        have "replace_all p r (collapse_spaces cs) = collapse_spaces (replace_all p r cs)"
          using Cons by (intro IH) simp
        moreover have "\<not> (p \<noteq> [] \<and> prefix p (c # collapse_spaces cs))"
          using nomatch False Cons prefix_collapse_spaces [OF p, of s] by simp
        ultimately show ?thesis
          using False nomatch Cons by (simp add: replace_all_miss)
      qed
    qed
  qed
qed

lemma no_space_words:
  "no_space (ascii ''litro'')" "no_space (ascii ''l'')"
  "no_space (ascii ''quilo'')" "no_space (ascii ''kg'')"
  "ascii ''l'' \<noteq> []" "ascii ''kg'' \<noteq> []"
  by (simp_all add: no_space_def ascii_def is_space_def)


subsection \<open>The normal form of a normalized title\<close>

lemma ccc_combining: "ccc c \<noteq> 0 \<Longrightarrow> is_combining c"
  by (auto simp: ccc_def is_combining_def split: if_splits)

lemma strip_marks_reorder: "strip_marks (reorder s) = strip_marks s"
proof (induction s rule: reorder.induct)
  case 1
  show ?case by simp
next
  case (2 c cs)
  show ?case
  proof (cases "ccc c = 0")
    case True
    then show ?thesis
      using 2(1) by (simp add: strip_marks_def)
  next
    case False
    let ?run = "takeWhile (\<lambda>d. ccc d \<noteq> 0) (c # cs)"
    let ?rest = "dropWhile (\<lambda>d. ccc d \<noteq> 0) (c # cs)"
    have marks: "is_combining d" if "d \<in> set ?run" for d
      using that by (auto dest!: set_takeWhileD intro: ccc_combining)
    have "strip_marks (reorder (c # cs)) =
        strip_marks (sort_key ccc ?run) @ strip_marks (reorder ?rest)"
      using False by (simp add: strip_marks_def)
    also have "strip_marks (sort_key ccc ?run) = []"
      unfolding strip_marks_def filter_empty_conv using marks by simp
    also have "strip_marks (reorder ?rest) = strip_marks ?rest"
      using False by (rule 2(2))
    also have "[] @ strip_marks ?rest = strip_marks ?run @ strip_marks ?rest"
      unfolding strip_marks_def filter_empty_conv append_Nil
      using marks by (simp add: filter_empty_conv)
    also have "\<dots> = strip_marks (?run @ ?rest)"
      by (simp add: strip_marks_def)
    finally show ?thesis
      by (simp only: takeWhile_dropWhile_id)
  qed
qed

lemma first_steps: "strip_marks (normalizeNFD (toLowerCase x)) = concat (map fold_unit x)"
proof -
  have "strip_marks (concat (map decompose (map lower_unit x))) = concat (map fold_unit x)"
    by (induction x) (simp_all add: strip_marks_def fold_unit_def)
  then show ?thesis
    by (simp only: normalizeNFD_def toLowerCase_def strip_marks_reorder)
qed

lemma lower_unit_idem: "lower_unit (lower_unit c) = lower_unit c"
  by (simp add: lower_unit_def)

lemma nfd_table_rows:
  "list_all (\<lambda>(c, b, m). 0xC0 \<le> c \<and> c < 0x100 \<and> b < 0x80 \<and> is_combining m \<and>
      (lower_unit c = c \<longrightarrow> lower_unit b = b)) nfd_table"
  by (simp add: nfd_table_def is_combining_def lower_unit_def)

lemma nfd_table_row:
  assumes "map_of nfd_table c = Some (b, m)"
  shows "0xC0 \<le> c \<and> c < 0x100 \<and> b < 0x80 \<and> is_combining m \<and>
    (lower_unit c = c \<longrightarrow> lower_unit b = b)"
proof -
  have "(c, b, m) \<in> set nfd_table"
    using assms by (rule map_of_SomeD)
  then show ?thesis
    using nfd_table_rows unfolding list_all_iff by fast
qed

lemma mark_table_row:
  "map_of mark_table c = Some ms \<Longrightarrow> 0x300 \<le> c \<and> is_combining c \<and> list_all is_combining ms"
  by (auto simp: mark_table_def is_combining_def split: if_splits)

lemma mark_table_low: "c < 0x300 \<Longrightarrow> map_of mark_table c = None"
  using mark_table_row [of c] by (cases "map_of mark_table c") auto

lemma decompose_low: "c < 0xC0 \<Longrightarrow> decompose c = [c]"
proof (cases "map_of nfd_table c")
  case None
  assume "c < 0xC0"
  then show ?thesis
    using None by (simp add: decompose_def mark_table_low)
next
  case (Some bm)
  assume "c < 0xC0"
  then show ?thesis
    using Some nfd_table_row [of c "fst bm" "snd bm"] by simp
qed

lemma plain_base: "b < 0x80 \<Longrightarrow> lower_unit b = b \<Longrightarrow> plain b"
  by (simp add: plain_def decompose_low is_combining_def)

lemma fold_unit_row:
  assumes "map_of nfd_table c = Some (b, m)" "lower_unit c = c"
  shows "fold_unit c = [b] \<and> plain b"
proof -
  from nfd_table_row [OF assms(1)] assms(2)
  have r: "b < 0x80" "is_combining m" "lower_unit b = b"
    by simp_all
  then have "\<not> is_combining b"
    by (simp add: is_combining_def)
  then show ?thesis
    using assms r by (simp add: fold_unit_def decompose_def strip_marks_def plain_base)
qed

lemma fold_unit_plain: "d \<in> set (fold_unit c) \<Longrightarrow> plain d"
proof (cases "map_of nfd_table (lower_unit c)")
  case None
  assume d: "d \<in> set (fold_unit c)"
  show ?thesis
  proof (cases "map_of mark_table (lower_unit c)")
    case no_mark: None
    then have "decompose (lower_unit c) = [lower_unit c]"
      using None by (simp add: decompose_def)
    then show ?thesis
      using d by (auto simp: fold_unit_def strip_marks_def plain_def lower_unit_idem
          split: if_splits)
  next
    case (Some ms)
    then have "strip_marks ms = []"
      using mark_table_row [of "lower_unit c" ms]
      by (simp add: strip_marks_def filter_empty_conv list_all_iff)
    then show ?thesis
      using d None Some by (simp add: fold_unit_def decompose_def)
  qed
next
  case (Some bm)
  obtain b m where bm: "bm = (b, m)" by (cases bm)
  have "fold_unit (lower_unit c) = [b] \<and> plain b"
    using Some bm by (intro fold_unit_row) (simp_all add: lower_unit_idem)
  moreover have "fold_unit (lower_unit c) = fold_unit c"
    by (simp add: fold_unit_def lower_unit_idem)
  moreover assume "d \<in> set (fold_unit c)"
  ultimately show ?thesis by simp
qed

lemma plain_letters: "plain 0x20" "plain 0x6C" "plain 0x6B" "plain 0x67"
  by (simp_all add: plain_base lower_unit_def)

lemma tidy_letters: "tidy 0x20" "tidy 0x6C" "tidy 0x6B" "tidy 0x67"
  by (simp_all add: tidy_def plain_letters is_space_def)

lemma set_collapse_spaces:
  "c \<in> set (collapse_spaces s) \<Longrightarrow> c = 0x20 \<or> (c \<in> set s \<and> \<not> is_space c)"
  by (induction s rule: collapse_spaces.induct) (auto split: if_splits dest: set_dropWhileD)

lemma set_replace_all: "c \<in> set (replace_all p r s) \<Longrightarrow> c \<in> set s \<or> c \<in> set r"
proof (induction p r s rule: replace_all.induct)
  case (1 p r)
  then show ?case by simp
next
  case (2 p r c' cs)
  show ?case
  proof (cases "p \<noteq> [] \<and> prefix p (c' # cs)")
    case True
    have "c \<in> set r \<or> c \<in> set (replace_all p r (drop (length p) (c' # cs)))"
      using 2(3) True by (simp add: replace_all_hit)
    then have "c \<in> set r \<or> c \<in> set (drop (length p) (c' # cs))"
      using 2(1) [OF True] by blast
    then show ?thesis
      by (blast dest: in_set_dropD)
  next
    case False
    then show ?thesis
      using 2 by (auto simp: replace_all_miss)
  qed
qed

lemma set_trim: "c \<in> set (trim s) \<Longrightarrow> c \<in> set s"
  by (auto simp: trim_def dest!: set_dropWhileD)

lemma tidy_before_replace:
  "c \<in> set (collapse_spaces (hyphens_to_spaces (concat (map fold_unit x)))) \<Longrightarrow> tidy c"
proof -
  assume "c \<in> set (collapse_spaces (hyphens_to_spaces (concat (map fold_unit x))))"
  then have "c = 0x20 \<or> (c \<in> set (hyphens_to_spaces (concat (map fold_unit x))) \<and> \<not> is_space c)"
    by (rule set_collapse_spaces)
  then show "tidy c"
  proof
    assume "c = 0x20"
    then show ?thesis by (simp add: tidy_letters)
  next
    assume a: "c \<in> set (hyphens_to_spaces (concat (map fold_unit x))) \<and> \<not> is_space c"
    then have "c \<in> (\<lambda>d. if d = 0x2D then 0x20 else d) ` set (concat (map fold_unit x))"
      by (simp add: hyphens_to_spaces_def)
    then obtain d where d: "d \<in> set (concat (map fold_unit x))" "c = (if d = 0x2D then 0x20 else d)"
      by blast
    then have "plain d"
      by (auto dest: fold_unit_plain)
    then show ?thesis
      using a d by (auto simp: tidy_def plain_letters)
  qed
qed

lemma tidy_normalizeTitle: "c \<in> set (normalizeTitle x) \<Longrightarrow> tidy c"
proof -
  assume "c \<in> set (normalizeTitle x)"
  then have "c \<in> set (replace_all (ascii ''quilo'') (ascii ''kg'')
         (replace_all (ascii ''litro'') (ascii ''l'')
           (collapse_spaces (hyphens_to_spaces (concat (map fold_unit x))))))"
    by (simp add: normalizeTitle_def first_steps set_trim)
  then have "c \<in> set (collapse_spaces (hyphens_to_spaces (concat (map fold_unit x)))) \<or>
      c \<in> set (ascii ''l'') \<or> c \<in> set (ascii ''kg'')"
    by (auto dest!: set_replace_all)
  then show "tidy c"
    by (auto simp: ascii_def tidy_letters dest: tidy_before_replace)
qed

lemma spaced_collapse_head:
  "s \<noteq> [] \<Longrightarrow> \<not> is_space (hd s) \<Longrightarrow> collapse_spaces s \<noteq> [] \<and> hd (collapse_spaces s) = hd s"
  by (cases s) simp_all

lemma spaced_Cons:
  "spaced (c # s) \<longleftrightarrow> (s = [] \<or> \<not> (is_space c \<and> is_space (hd s))) \<and> spaced s"
  by (cases s) simp_all

lemma spaced_collapse_spaces: "spaced (collapse_spaces s)"
proof (induction s rule: collapse_spaces.induct)
  case 1
  show ?case by simp
next
  case (2 c cs)
  show ?case
  proof (cases "is_space c")
    case True
    let ?r = "dropWhile is_space cs"
    have "collapse_spaces ?r = [] \<or> \<not> is_space (hd (collapse_spaces ?r))"
    proof (cases "?r = []")
      case True
      then have "collapse_spaces ?r = []"
        by (simp only: collapse_spaces.simps)
      then show ?thesis ..
    next
      case False
      then have "\<not> is_space (hd ?r)"
        by (rule hd_dropWhile)
      then show ?thesis
        using False spaced_collapse_head [of ?r] by simp
    qed
    then show ?thesis
      using True 2(1) by (simp add: spaced_Cons)
  next
    case False
    then show ?thesis
      using 2(2) by (simp add: spaced_Cons)
  qed
qed

lemma collapse_spaces_fixed:
  "spaced s \<Longrightarrow> (\<And>c. c \<in> set s \<Longrightarrow> is_space c \<Longrightarrow> c = 0x20) \<Longrightarrow> collapse_spaces s = s"
proof (induction s rule: spaced.induct)
  case 1
  show ?case by simp
next
  case (2 c)
  then show ?case by auto
next
  case (3 c d cs)
  have IH: "collapse_spaces (d # cs) = d # cs"
    using 3 by simp
  show ?case
  proof (cases "is_space c")
    case True
    then have "c = 0x20" "\<not> is_space d"
      using 3 by auto
    then show ?thesis
      using True IH by simp
  next
    case False
    then show ?thesis
      using IH by simp
  qed
qed

lemma spaced_append: "spaced (a @ b) \<Longrightarrow> spaced a \<and> spaced b"
proof (induction a rule: spaced.induct)
  case 1
  then show ?case by simp
next
  case (2 c)
  then show ?case by (cases b) simp_all
next
  case (3 c d cs)
  then show ?case by simp
qed

lemma spaced_sublist: "sublist a s \<Longrightarrow> spaced s \<Longrightarrow> spaced a"
  by (auto simp: sublist_def dest: spaced_append)

lemma sublist_trim: "sublist (trim s) s"
proof -
  have "sublist (dropWhile is_space (rev (dropWhile is_space s))) (rev (dropWhile is_space s))"
    by (rule sublist_dropWhile)
  then have "sublist (trim s) (dropWhile is_space s)"
    by (simp add: trim_def sublist_rev_left)
  moreover have "sublist (dropWhile is_space s) s"
    by (rule sublist_dropWhile)
  ultimately show ?thesis
    by (rule sublist_order.order.trans)
qed

lemma drop_trailing_head:
  "v \<noteq> [] \<Longrightarrow> \<not> P (hd v) \<Longrightarrow>
   rev (dropWhile P (rev v)) \<noteq> [] \<and> hd (rev (dropWhile P (rev v))) = hd v"
  by (cases v) (auto simp: dropWhile_append)

lemma dropWhile_none: "s = [] \<or> \<not> P (hd s) \<Longrightarrow> dropWhile P s = s"
  by (cases s) auto

lemma trim_idem: "trim (trim s) = trim s"
proof -
  let ?v = "dropWhile is_space s"
  let ?w = "rev (dropWhile is_space (rev ?v))"
  have v: "?v = [] \<or> \<not> is_space (hd ?v)"
    using hd_dropWhile [of is_space s] by blast
  have "?w = [] \<or> \<not> is_space (hd ?w)"
  proof (cases "?v = []")
    case True
    then have "?w = []"
      by (simp only: rev.simps dropWhile.simps)
    then show ?thesis ..
  next
    case False
    then have "\<not> is_space (hd ?v)"
      using v by blast
    then have "hd ?w = hd ?v"
      using False drop_trailing_head [of ?v is_space] by blast
    then show ?thesis
      using \<open>\<not> is_space (hd ?v)\<close> by (simp only: not_False_eq_True simp_thms)
  qed
  then have front: "dropWhile is_space ?w = ?w"
    by (rule dropWhile_none)
  have "rev ?w = dropWhile is_space (rev ?v)"
    by (simp only: rev_rev_ident)
  then have "rev ?w = [] \<or> \<not> is_space (hd (rev ?w))"
    using hd_dropWhile [of is_space "rev ?v"] by metis
  then have "dropWhile is_space (rev ?w) = rev ?w"
    by (rule dropWhile_none)
  then have "rev (dropWhile is_space (rev (dropWhile is_space ?w))) = ?w"
    by (simp only: front rev_rev_ident)
  then show ?thesis
    by (simp only: trim_def)
qed

lemma replace_all_absent: "\<not> sublist p s \<Longrightarrow> replace_all p r s = s"
proof (induction s)
  case Nil
  show ?case by simp
next
  case (Cons c cs)
  then have "\<not> prefix p (c # cs)" "\<not> sublist p cs"
    by (auto simp: sublist_Cons_right)
  then show ?case
    using Cons.IH by (simp add: replace_all_miss)
qed

lemma prefix_replace_all:
  "set q \<inter> set r = {} \<Longrightarrow> r \<noteq> [] \<Longrightarrow> prefix q (replace_all p r s) \<Longrightarrow> prefix q s"
proof (induction q arbitrary: s)
  case Nil
  show ?case by simp
next
  case (Cons x q)
  show ?case
  proof (cases s)
    case Nil
    then show ?thesis using Cons.prems by simp
  next
    case s: (Cons c cs)
    show ?thesis
    proof (cases "p \<noteq> [] \<and> prefix p (c # cs)")
      case True
      then have "prefix (x # q) (r @ replace_all p r (drop (length p) (c # cs)))"
        using Cons.prems(3) s by (simp add: replace_all_hit)
      then have "x = hd r"
        using Cons.prems(2) by (cases r) auto
      then have "x \<in> set r"
        using Cons.prems(2) by simp
      then show ?thesis
        using Cons.prems(1) by auto
    next
      case False
      then have "prefix (x # q) (c # replace_all p r cs)"
        using Cons.prems(3) s by (simp add: replace_all_miss)
      then have "x = c" "prefix q (replace_all p r cs)"
        by simp_all
      moreover have "set q \<inter> set r = {}"
        using Cons.prems(1) by auto
      ultimately show ?thesis
        using Cons.IH [of cs] Cons.prems(2) s by simp
    qed
  qed
qed

lemma sublist_after_replacement:
  assumes "set p \<inter> set r = {}" "p \<noteq> []" "sublist p (r @ s)"
  shows "sublist p s"
proof -
  from assms(3) consider "sublist p r" | "sublist p s"
    | xs1 xs2 where "p = xs1 @ xs2" "suffix xs1 r" "prefix xs2 s"
    by (auto simp: sublist_append)
  then show ?thesis
  proof cases
    case 1
    then have "set p \<subseteq> set r"
      by (auto simp: sublist_def)
    then show ?thesis
      using assms(1,2) by (cases p) auto
  next
    case 2
    then show ?thesis .
  next
    case 3
    show ?thesis
    proof (cases xs1)
      case Nil
      then show ?thesis using 3 by auto
    next
      case (Cons y ys)
      then have "y \<in> set r" "y \<in> set p"
        using 3 by (auto simp: suffix_def)
      then show ?thesis
        using assms(1) by auto
    qed
  qed
qed

lemma replace_all_removes:
  assumes "set p \<inter> set r = {}" "p \<noteq> []" "r \<noteq> []"
  shows "\<not> sublist p (replace_all p r s)"
proof (induction s rule: length_induct)
  case (1 s)
  note IH = "1.IH" [rule_format]
  show ?case
  proof (cases s)
    case Nil
    then show ?thesis using assms(2) by simp
  next
    case (Cons c cs)
    show ?thesis
    proof (cases "p \<noteq> [] \<and> prefix p (c # cs)")
      case True
      have "length (drop (length p) (c # cs)) < length s"
        using assms(2) Cons by simp
      then have "\<not> sublist p (replace_all p r (drop (length p) (c # cs)))"
        by (rule IH)
      then have "\<not> sublist p (r @ replace_all p r (drop (length p) (c # cs)))"
        using sublist_after_replacement [OF assms(1,2)] by blast
      then show ?thesis
        using True Cons by (simp add: replace_all_hit)
    next
      case False
      have "\<not> sublist p (replace_all p r cs)"
        using Cons by (intro IH) simp
      moreover have "\<not> prefix p (replace_all p r (c # cs))"
        using prefix_replace_all [OF assms(1,3), of p "c # cs"] False assms(2) by blast
      ultimately show ?thesis
        using False Cons by (simp add: replace_all_miss sublist_Cons_right)
    qed
  qed
qed

lemma length_replace_all:
  "length r \<le> length p \<Longrightarrow> length (replace_all p r s) \<le> length s"
proof (induction p r s rule: replace_all.induct)
  case (1 p r)
  show ?case by simp
next
  case (2 p r c cs)
  show ?case
  proof (cases "p \<noteq> [] \<and> prefix p (c # cs)")
    case True
    then have "length p \<le> length (c # cs)"
      by (auto dest: prefix_length_le)
    then show ?thesis
      using True 2 by (simp add: replace_all_hit)
  next
    case False
    then show ?thesis
      using 2 by (simp add: replace_all_miss)
  qed
qed

lemma length_replace_all_less:
  "length r < length p \<Longrightarrow> sublist p s \<Longrightarrow> length (replace_all p r s) < length s"
proof (induction p r s rule: replace_all.induct)
  case (1 p r)
  then show ?case by simp
next
  case (2 p r c cs)
  show ?case
  proof (cases "p \<noteq> [] \<and> prefix p (c # cs)")
    case True
    then have "length p \<le> length (c # cs)"
      by (auto dest: prefix_length_le)
    moreover have "length (replace_all p r (drop (length p) (c # cs))) \<le> length (drop (length p) (c # cs))"
      using 2(3) by (intro length_replace_all) simp
    ultimately show ?thesis
      using True 2(3) by (simp add: replace_all_hit)
  next
    case False
    then have "sublist p cs"
      using 2(4) 2(3) by (cases p) (auto simp: sublist_Cons_right)
    then show ?thesis
      using False 2 by (simp add: replace_all_miss)
  qed
qed

lemma fold_unit_plain_id: "plain c \<Longrightarrow> fold_unit c = [c]"
  by (simp add: plain_def fold_unit_def strip_marks_def)

lemma concat_singletons: "(\<And>c. c \<in> set s \<Longrightarrow> f c = [c]) \<Longrightarrow> concat (map f s) = s"
  by (induction s) simp_all

lemma tidy_first_steps:
  "(\<And>c. c \<in> set y \<Longrightarrow> tidy c) \<Longrightarrow> hyphens_to_spaces (concat (map fold_unit y)) = y"
proof -
  assume t: "\<And>c. c \<in> set y \<Longrightarrow> tidy c"
  have "concat (map fold_unit y) = y"
    by (rule concat_singletons) (use t in \<open>simp add: tidy_def fold_unit_plain_id\<close>)
  moreover have "hyphens_to_spaces y = y"
    unfolding hyphens_to_spaces_def by (rule map_idI) (use t in \<open>simp add: tidy_def\<close>)
  ultimately show ?thesis by simp
qed

lemma before_trim_collapsed:
  "replace_all (ascii ''quilo'') (ascii ''kg'') (replace_all (ascii ''litro'') (ascii ''l'')
     (collapse_spaces z)) =
   collapse_spaces (replace_all (ascii ''quilo'') (ascii ''kg'')
     (replace_all (ascii ''litro'') (ascii ''l'') z))"
  by (simp add: replace_all_collapse_spaces no_space_words)

lemma spaced_normalizeTitle: "spaced (normalizeTitle x)"
proof -
  have "sublist (normalizeTitle x)
     (collapse_spaces (replace_all (ascii ''quilo'') (ascii ''kg'')
        (replace_all (ascii ''litro'') (ascii ''l'')
          (hyphens_to_spaces (strip_marks (normalizeNFD (toLowerCase x)))))))"
    unfolding normalizeTitle_def before_trim_collapsed by (rule sublist_trim)
  then show ?thesis
    by (rule spaced_sublist) (rule spaced_collapse_spaces)
qed

lemma quilo_kg: "set (ascii ''quilo'') \<inter> set (ascii ''kg'') = {}" "ascii ''quilo'' \<noteq> []"
  by (simp_all add: ascii_def)

lemma no_quilo_normalizeTitle: "\<not> sublist (ascii ''quilo'') (normalizeTitle x)"
proof
  assume "sublist (ascii ''quilo'') (normalizeTitle x)"
  moreover have "sublist (normalizeTitle x)
     (replace_all (ascii ''quilo'') (ascii ''kg'') (replace_all (ascii ''litro'') (ascii ''l'')
        (collapse_spaces (hyphens_to_spaces (strip_marks (normalizeNFD (toLowerCase x)))))))"
    unfolding normalizeTitle_def by (rule sublist_trim)
  ultimately have "sublist (ascii ''quilo'')
     (replace_all (ascii ''quilo'') (ascii ''kg'') (replace_all (ascii ''litro'') (ascii ''l'')
        (collapse_spaces (hyphens_to_spaces (strip_marks (normalizeNFD (toLowerCase x)))))))"
    by (rule sublist_order.order.trans)
  then show False
    using replace_all_removes [OF quilo_kg] no_space_words by blast
qed

lemma normalizeTitle_again:
  "normalizeTitle (normalizeTitle x) =
   trim (replace_all (ascii ''quilo'') (ascii ''kg'')
     (replace_all (ascii ''litro'') (ascii ''l'') (normalizeTitle x)))"
proof -
  let ?y = "normalizeTitle x"
  have tidy: "\<And>c. c \<in> set ?y \<Longrightarrow> tidy c"
    by (rule tidy_normalizeTitle)
  have "collapse_spaces ?y = ?y"
    by (rule collapse_spaces_fixed) (use tidy in \<open>simp_all add: spaced_normalizeTitle tidy_def\<close>)
  then show ?thesis
    using tidy_first_steps [of ?y, OF tidy]
    by (subst normalizeTitle_def) (simp only: first_steps)
qed

lemma trim_normalizeTitle: "trim (normalizeTitle x) = normalizeTitle x"
  unfolding normalizeTitle_def by (rule trim_idem)

lemma normalizeTitle_idem_iff:
  "normalizeTitle (normalizeTitle x) = normalizeTitle x \<longleftrightarrow>
   \<not> sublist (ascii ''litro'') (normalizeTitle x)"
proof (cases "sublist (ascii ''litro'') (normalizeTitle x)")
  case True
  let ?y = "normalizeTitle x"
  have "length (normalizeTitle ?y) \<le>
      length (replace_all (ascii ''quilo'') (ascii ''kg'') (replace_all (ascii ''litro'') (ascii ''l'') ?y))"
    unfolding normalizeTitle_again by (rule sublist_length_le) (rule sublist_trim)
  also have "\<dots> \<le> length (replace_all (ascii ''litro'') (ascii ''l'') ?y)"
    by (rule length_replace_all) (simp add: ascii_def)
  also have "\<dots> < length ?y"
    by (rule length_replace_all_less) (use True in \<open>simp_all add: ascii_def\<close>)
  finally show ?thesis
    using True by auto
next
  case False
  then show ?thesis
    by (simp add: normalizeTitle_again replace_all_absent no_quilo_normalizeTitle
        trim_normalizeTitle)
qed

lemma decompose_units:
  "e \<in> set (decompose a) \<Longrightarrow> e = a \<or> e < 0x80 \<or> is_combining e"
proof (cases "map_of nfd_table a")
  case (Some bm)
  assume "e \<in> set (decompose a)"
  then show ?thesis
    using Some nfd_table_row [of a "fst bm" "snd bm"] by (auto simp: decompose_def)
next
  case None
  assume e: "e \<in> set (decompose a)"
  show ?thesis
  proof (cases "map_of mark_table a")
    case no_mark: None
    then show ?thesis
      using e None by (simp add: decompose_def)
  next
    case (Some ms)
    then show ?thesis
      using e None mark_table_row [of a ms] by (auto simp: decompose_def list_all_iff)
  qed
qed

lemma fold_unit_latin:
  assumes "c < 0x100 \<or> is_combining c" "d \<in> set (fold_unit c)"
  shows "d < 0x100"
proof -
  from assms(2) have d: "d \<in> set (decompose (lower_unit c))" "\<not> is_combining d"
    by (simp_all add: fold_unit_def strip_marks_def)
  then have "d = lower_unit c \<or> d < 0x80"
    using decompose_units by blast
  then show ?thesis
    using assms(1) d(2) by (auto simp: lower_unit_def is_combining_def split: if_splits)
qed

lemma normalizeTitle_units:
  assumes "c \<in> set (normalizeTitle x)"
  shows "c \<in> {0x20, 0x6C, 0x6B, 0x67} \<or> (\<exists>d\<in>set x. c \<in> set (fold_unit d))"
proof -
  from assms have "c \<in> set (replace_all (ascii ''quilo'') (ascii ''kg'')
         (replace_all (ascii ''litro'') (ascii ''l'')
           (collapse_spaces (hyphens_to_spaces (concat (map fold_unit x))))))"
    by (simp add: normalizeTitle_def first_steps set_trim)
  then have "c \<in> set (collapse_spaces (hyphens_to_spaces (concat (map fold_unit x)))) \<or>
      c \<in> set (ascii ''l'') \<or> c \<in> set (ascii ''kg'')"
    by (auto dest!: set_replace_all)
  moreover have "c = 0x20 \<or> (\<exists>d\<in>set x. c \<in> set (fold_unit d))"
    if "c \<in> set (collapse_spaces (hyphens_to_spaces (concat (map fold_unit x))))"
  proof -
    from that have "c = 0x20 \<or> c \<in> set (hyphens_to_spaces (concat (map fold_unit x)))"
      by (auto dest: set_collapse_spaces)
    then show ?thesis
      by (auto simp: hyphens_to_spaces_def split: if_splits)
  qed
  ultimately show ?thesis
    by (auto simp: ascii_def)
qed

lemma latin_normalizeTitle: "latin_text x \<Longrightarrow> latin_text (normalizeTitle x)"
proof -
  assume x: "latin_text x"
  have "c < 0x100" if "c \<in> set (normalizeTitle x)" for c
  proof -
    from normalizeTitle_units [OF that]
    show ?thesis
    proof
      assume "c \<in> {0x20, 0x6C, 0x6B, 0x67}"
      then show ?thesis by auto
    next
      assume "\<exists>d\<in>set x. c \<in> set (fold_unit d)"
      then obtain d where d: "d \<in> set x" "c \<in> set (fold_unit d)"
        by blast
      then have "d < 0x100 \<or> is_combining d"
        using x by (auto simp: latin_text_def list_all_iff is_combining_def)
      then show ?thesis
        using d(2) by (rule fold_unit_latin)
    qed
  qed
  then show ?thesis
    by (simp add: latin_text_def list_all_iff)
qed

text \<open>
  C2, as the code has it: for a title of code units below U+0100 and combining marks
  U+0300 to U+036F the normalized title is again such a text, and normalizing it once more
  changes nothing exactly when it does not contain the word litro. (The replacement of
  litro by l is made in one pass, and a pass can leave a new litro behind.)
\<close>

theorem normalizeTitle_idempotent_iff:
  "latin_text x \<longrightarrow>
     latin_text (normalizeTitle x) \<and>
     (normalizeTitle (normalizeTitle x) = normalizeTitle x \<longleftrightarrow>
      \<not> includes_str (normalizeTitle x) (ascii ''litro''))"
  by (simp add: includes_str_def normalizeTitle_idem_iff latin_normalizeTitle)

theorem normalizeTitle_idempotent_iff_witness:
  "latin_text (ascii ''Leite  Semi-Desnatado 1 Litro'') \<and>
   \<not> includes_str (normalizeTitle (ascii ''Leite  Semi-Desnatado 1 Litro'')) (ascii ''litro'') \<and>
   normalizeTitle (normalizeTitle (ascii ''Leite  Semi-Desnatado 1 Litro'')) =
   normalizeTitle (ascii ''Leite  Semi-Desnatado 1 Litro'')"
proof -
  have n: "normalizeTitle (ascii ''Leite  Semi-Desnatado 1 Litro'') = ascii ''leite semi desnatado 1 l''"
    by (simp add: text_eval replace_all.simps)
  have "\<not> includes_str (normalizeTitle (ascii ''Leite  Semi-Desnatado 1 Litro'')) (ascii ''litro'')"
    unfolding n by (simp add: text_eval sublist_Cons_right)
  moreover have "latin_text (ascii ''Leite  Semi-Desnatado 1 Litro'')"
    by (simp add: latin_text_def ascii_def)
  ultimately show ?thesis
    using normalizeTitle_idempotent_iff [of "ascii ''Leite  Semi-Desnatado 1 Litro''"] by blast
qed

text \<open>The title \<open>litroitro\<close> normalizes to \<open>litro\<close>, which normalizes to \<open>l\<close>.\<close>

theorem normalizeTitle_idempotent_counterexample:
  "normalizeTitle (normalizeTitle (ascii ''litroitro'')) \<noteq> normalizeTitle (ascii ''litroitro'')"
proof -
  have "normalizeTitle (ascii ''litroitro'') = ascii ''litro''"
    by (simp add: text_eval replace_all.simps)
  moreover have "normalizeTitle (ascii ''litro'') = ascii ''l''"
    by (simp add: text_eval replace_all.simps)
  ultimately show ?thesis
    by (simp add: ascii_def)
qed

subsection \<open>The steps in the order of the specification\<close>




























subsection \<open>The spelling with the tilde\<close>

lemma plain_normalizeTitle: "c \<in> set (normalizeTitle t) \<Longrightarrow> plain c"
  using tidy_normalizeTitle [of c t] by (simp add: tidy_def)

lemma no_tilde_normalizeTitle: "\<not> includes_str (normalizeTitle t) feijao_tilde"
proof
  assume "includes_str (normalizeTitle t) feijao_tilde"
  then have "set feijao_tilde \<subseteq> set (normalizeTitle t)"
    by (auto simp: includes_str_def sublist_def)
  then have "0xE3 \<in> set (normalizeTitle t)"
    by (auto simp: feijao_tilde_def)
  then have "plain 0xE3"
    by (rule plain_normalizeTitle)
  moreover have "decompose 0xE3 = [0x61, 0x303]"
    by (simp add: decompose_def nfd_table_def)
  ultimately show False
    by (simp add: plain_def)
qed

text \<open>
  C10: on a normalized title the key is the same when the test for the spelling of
  feijao with the tilde is deleted from the third rule, since a normalized title holds
  neither a combining mark nor a letter that has a decomposition.
\<close>

theorem feijao_tilde_redundant:
  "generateProductKey (normalizeTitle t) = generateProductKey_no_tilde (normalizeTitle t) \<and>
   filter (\<lambda>c. is_combining c \<or> decompose c \<noteq> [c]) (normalizeTitle t) = []"
proof
  have "typeFields (normalizeTitle t) = typeFields_no_tilde (normalizeTitle t)"
    by (simp add: typeFields_def typeFields_no_tilde_def no_tilde_normalizeTitle)
  then show "generateProductKey (normalizeTitle t) = generateProductKey_no_tilde (normalizeTitle t)"
    by (simp only: generateProductKey_def generateProductKey_no_tilde_def extractFields_def
        extractFields_no_tilde_def)
  show "filter (\<lambda>c. is_combining c \<or> decompose c \<noteq> [c]) (normalizeTitle t) = []"
    using plain_normalizeTitle [of _ t] by (auto simp: filter_empty_conv plain_def)
qed

subsection \<open>Letter case and accents\<close>












end
